theory Spec2Isabelle
  imports Main
begin

section \<open>Strings\<close>

text \<open>
  Strings are lists of 8-bit code units: the characters U+0000 to U+00FF. Text with other
  characters is outside the embedding.

  The white space of \<^verbatim>\<open>trim\<close> and of the regular expression class \<^verbatim>\<open>\s\<close>:
  among these characters it is tab, line feed, vertical tab, form feed, carriage return,
  space and the no-break space U+00A0.
\<close>

definition is_space :: "char \<Rightarrow> bool" where
  "is_space c =
     (c \<in> set [CHR 0x09, CHR 0x0A, CHR 0x0B, CHR 0x0C, CHR 0x0D, CHR 0x20, CHR 0xA0])"

text \<open>\<^verbatim>\<open>String.prototype.trim\<close>: white space is removed at both ends.\<close>

definition trim :: "string \<Rightarrow> string" where
  "trim s = rev (dropWhile is_space (rev (dropWhile is_space s)))"

text \<open>
  \<^verbatim>\<open>toLowerCase\<close>, character by character: the letters A-Z, and the letters U+00C0 to
  U+00DE but the multiplication sign U+00D7, have their lower-case form 32 places up.
\<close>

definition lower_char :: "char \<Rightarrow> char" where
  "lower_char c =
     (let n = (of_char c :: nat) in
      if (65 \<le> n \<and> n \<le> 90) \<or> (192 \<le> n \<and> n \<le> 222 \<and> n \<noteq> 215) then char_of (n + 32) else c)"

text \<open>
  The canonical form of a character under the flag \<^verbatim>\<open>i\<close> of a regular expression is
  its upper-case form: 32 places down for a-z and for U+00E0 to U+00FE but the division
  sign U+00F7. The upper-case forms of U+00B5 and U+00FF are beyond U+00FF, and no other
  character of the embedding has them; these two stand for their own canonical forms.
  U+00DF has no upper-case form of one code unit and is its own canonical form.
\<close>

definition upper_char :: "char \<Rightarrow> char" where
  "upper_char c =
     (let n = (of_char c :: nat) in
      if (97 \<le> n \<and> n \<le> 122) \<or> (224 \<le> n \<and> n \<le> 254 \<and> n \<noteq> 247) then char_of (n - 32) else c)"

definition toLowerCase :: "string \<Rightarrow> string" where
  "toLowerCase s = map lower_char s"

text \<open>\<^verbatim>\<open>String.prototype.includes\<close>: the argument occurs somewhere as a substring.\<close>

fun includes_str :: "string \<Rightarrow> string \<Rightarrow> bool" where
  "includes_str [] sub = (sub = [])"
| "includes_str (c # cs) sub = (take (length sub) (c # cs) = sub \<or> includes_str cs sub)"

text \<open>\<^verbatim>\<open>String.prototype.endsWith\<close>.\<close>

definition endsWith :: "string \<Rightarrow> string \<Rightarrow> bool" where
  "endsWith s suf = (length suf \<le> length s \<and> drop (length s - length suf) s = suf)"

text \<open>Decimal numerals, as a template literal or \<^verbatim>\<open>String\<close> prints an integer.\<close>

definition digit_char :: "nat \<Rightarrow> char" where
  "digit_char d = char_of (48 + d)"

function string_of_nat :: "nat \<Rightarrow> string" where
  "string_of_nat n =
     (if n < 10 then [digit_char n] else string_of_nat (n div 10) @ [digit_char (n mod 10)])"
  by pat_completeness auto
termination
  by (relation "measure (\<lambda>n. n)") auto

declare string_of_nat.simps [simp del]

definition string_of_int :: "int \<Rightarrow> string" where
  "string_of_int i = (if i < 0 then CHR ''-'' # string_of_nat (nat (- i)) else string_of_nat (nat i))"


section \<open>Cells and records\<close>

text \<open>
  A cell of a tabularized sheet is a string, a number or a boolean; an empty cell is the
  empty string (the \<^verbatim>\<open>defval\<close> of the sheet conversion). Numeric cells are integers
  here, of the size that \<^verbatim>\<open>String\<close> prints in full.
\<close>

datatype cell = CStr string | CNum int | CBool bool

text \<open>The truth value of a cell in a condition.\<close>

fun truthy :: "cell \<Rightarrow> bool" where
  "truthy (CStr s) = (s \<noteq> [])"
| "truthy (CNum n) = (n \<noteq> 0)"
| "truthy (CBool b) = b"

text \<open>\<^verbatim>\<open>String(v)\<close> on a cell.\<close>

fun String_cell :: "cell \<Rightarrow> string" where
  "String_cell (CStr s) = s"
| "String_cell (CNum n) = string_of_int n"
| "String_cell (CBool b) = (if b then ''true'' else ''false'')"

text \<open>\<^verbatim>\<open>row[i]\<close>: reading beyond the end of a row gives \<^verbatim>\<open>undefined\<close>, here \<open>None\<close>.\<close>

definition cell_at :: "cell list \<Rightarrow> nat \<Rightarrow> cell option" where
  "cell_at row i = (if i < length row then Some (row ! i) else None)"

text \<open>\<^verbatim>\<open>row[i] ? String(row[i]) : ''\<close>.\<close>

definition cell_text :: "cell list \<Rightarrow> nat \<Rightarrow> string" where
  "cell_text row i =
     (case cell_at row i of
        None \<Rightarrow> []
      | Some c \<Rightarrow> if truthy c then String_cell c else [])"

record translation_record =
  id_field :: string
  taskName :: string
  originalId :: string
  key :: string
  sourceText :: string
  notes_field :: "(string \<times> string) list"


section \<open>The normalizer: parseExcelFiles\<close>

text \<open>
  \<^verbatim>\<open>Math.random().toString(36).substr(2, 9)\<close> is a draw from the environment. The
  draws of a session are given by a function \<open>rnd\<close> from the number of the draw to the
  suffix it produced; the parser threads the number of draws made so far.
\<close>

definition keyVal :: "cell list \<Rightarrow> string" where
  "keyVal row = trim (cell_text row 1)"

definition sourceVal :: "cell list \<Rightarrow> string" where
  "sourceVal row = trim (cell_text row 2)"

text \<open>The condition of the header-row skip.\<close>

definition is_header :: "nat \<Rightarrow> cell list \<Rightarrow> bool" where
  "is_header rowIndex row =
     (rowIndex < 5 \<and>
      (toLowerCase (keyVal row) = ''key'' \<or> toLowerCase (keyVal row) = ''id'') \<and>
      (toLowerCase (sourceVal row) = ''value'' \<or> toLowerCase (sourceVal row) = ''source'' \<or>
       includes_str (toLowerCase (sourceVal row)) ''text''))"

text \<open>The loop over the columns from 3 on: non-empty cells become notes.\<close>

definition collect_notes :: "cell list \<Rightarrow> (string \<times> string) list" where
  "collect_notes row =
     map (\<lambda>i. (''col_'' @ string_of_nat i, String_cell (row ! i)))
       (filter (\<lambda>i. truthy (row ! i)) [3..<length row])"

definition make_id :: "string \<Rightarrow> nat \<Rightarrow> string \<Rightarrow> string" where
  "make_id sheetName rowIndex suffix = sheetName @ ''-'' @ string_of_nat rowIndex @ ''-'' @ suffix"

definition make_record :: "string \<Rightarrow> nat \<Rightarrow> cell list \<Rightarrow> string \<Rightarrow> translation_record" where
  "make_record sheetName rowIndex row suffix =
     \<lparr> id_field = make_id sheetName rowIndex suffix,
       taskName = sheetName,
       originalId = cell_text row 0,
       key = keyVal row,
       sourceText = sourceVal row,
       notes_field = collect_notes row \<rparr>"

text \<open>
  The body of the loop over the rows of a sheet. The state is the number of random draws
  made and \<^verbatim>\<open>allRecords\<close>. A row that is \<^verbatim>\<open>undefined\<close> is \<open>None\<close>.
\<close>

definition process_row ::
  "(nat \<Rightarrow> string) \<Rightarrow> string \<Rightarrow> nat \<Rightarrow> cell list option \<Rightarrow>
   nat \<times> translation_record list \<Rightarrow> nat \<times> translation_record list" where
  "process_row rnd sheetName rowIndex row st =
     (case row of
        None \<Rightarrow> st
      | Some cells \<Rightarrow>
          if length cells < 2 then st
          else if is_header rowIndex cells then st
          else if keyVal cells = [] \<and> sourceVal cells = [] then st
          else (Suc (fst st), snd st @ [make_record sheetName rowIndex cells (rnd (fst st))]))"

fun process_rows ::
  "(nat \<Rightarrow> string) \<Rightarrow> string \<Rightarrow> nat \<Rightarrow> cell list option list \<Rightarrow>
   nat \<times> translation_record list \<Rightarrow> nat \<times> translation_record list" where
  "process_rows rnd sheetName rowIndex [] st = st"
| "process_rows rnd sheetName rowIndex (row # rows) st =
     process_rows rnd sheetName (Suc rowIndex) rows (process_row rnd sheetName rowIndex row st)"

text \<open>A workbook: its sheets in the order of \<^verbatim>\<open>SheetNames\<close>, each with its rows.\<close>

type_synonym workbook = "(string \<times> cell list option list) list"

fun process_sheets ::
  "(nat \<Rightarrow> string) \<Rightarrow> workbook \<Rightarrow> nat \<times> translation_record list \<Rightarrow>
   nat \<times> translation_record list" where
  "process_sheets rnd [] st = st"
| "process_sheets rnd ((sheetName, jsonData) # sheets) st =
     process_sheets rnd sheets (process_rows rnd sheetName 0 jsonData st)"

text \<open>
  A file, with what reading it gives: \<open>None\<close> when \<^verbatim>\<open>arrayBuffer\<close> or
  \<^verbatim>\<open>XLSX.read\<close> throws.
\<close>

record js_file =
  name :: string
  content :: "workbook option"

datatype error = ParseError

fun parse_files ::
  "(nat \<Rightarrow> string) \<Rightarrow> js_file list \<Rightarrow> nat \<times> translation_record list \<Rightarrow>
   nat \<times> (error + translation_record list)" where
  "parse_files rnd [] st = (fst st, Inr (snd st))"
| "parse_files rnd (f # fs) st =
     (case content f of
        None \<Rightarrow> (fst st, Inl ParseError)
      | Some wb \<Rightarrow> parse_files rnd fs (process_sheets rnd wb st))"

definition parseExcelFiles ::
  "(nat \<Rightarrow> string) \<Rightarrow> nat \<Rightarrow> js_file list \<Rightarrow> nat \<times> (error + translation_record list)" where
  "parseExcelFiles rnd n files = parse_files rnd files (n, [])"


section \<open>Regular expressions\<close>

text \<open>
  The search builds a regular expression from a pattern text and tests strings against it.
  This section gives the pattern language as far as the search uses it: groups,
  alternatives, character classes of single characters and \<^verbatim>\<open>\s\<close>, the anchors
  \<^verbatim>\<open>^\<close> and \<^verbatim>\<open>$\<close>, pattern characters and escaped syntax characters. For any
  other construct, and for a pattern that is not well formed, the constructor gives
  \<open>None\<close>.
\<close>

definition backslash :: char where
  "backslash = CHR 0x5C"

text \<open>The characters of the class \<^verbatim>\<open>[.*+?^${}()|[\]\\]\<close>.\<close>

definition is_syntax_char :: "char \<Rightarrow> bool" where
  "is_syntax_char c = (c \<in> set (''.*+?^${}()|[]'' @ [backslash]))"

text \<open>\<^verbatim>\<open>str.replace(/[.*+?^${}()|[\]\\]/g, '\\$&')\<close>: a backslash before each of them.\<close>

fun escapeRegExp :: "string \<Rightarrow> string" where
  "escapeRegExp [] = []"
| "escapeRegExp (c # cs) =
     (if is_syntax_char c then backslash # c # escapeRegExp cs else c # escapeRegExp cs)"

datatype class_item = ItemChar char | ItemSpace

datatype regex =
    Eps
  | Lit char
  | Cls "class_item list"
  | Bol
  | Eol
  | Cat regex regex
  | Or regex regex

text \<open>
  The parser reads the pattern from left to right. It keeps a stack of the groups that are
  open, innermost first: for each the alternatives that are complete and the sequence
  being read. The mode says whether it is in a sequence, after a backslash, in a character
  class, after a backslash in a class, or after a dash in a class.
\<close>

record frame =
  alts :: "regex option"
  cur :: regex

datatype mode =
    Normal
  | Escape
  | InClass "class_item list"
  | ClassEscape "class_item list"
  | ClassDash "class_item list"

definition close_frame :: "frame \<Rightarrow> regex" where
  "close_frame fr = (case alts fr of None \<Rightarrow> cur fr | Some a \<Rightarrow> Or a (cur fr))"

definition push_atom :: "regex \<Rightarrow> frame list \<Rightarrow> (mode \<times> frame list) option" where
  "push_atom a stack =
     (case stack of
        [] \<Rightarrow> None
      | fr # rest \<Rightarrow> Some (Normal, fr\<lparr>cur := Cat (cur fr) a\<rparr> # rest))"

definition parse_step :: "mode \<times> frame list \<Rightarrow> char \<Rightarrow> (mode \<times> frame list) option" where
  "parse_step st c =
     (case st of
        (Normal, stack) \<Rightarrow>
          if c = backslash then Some (Escape, stack)
          else if c = CHR ''('' then Some (Normal, \<lparr>alts = None, cur = Eps\<rparr> # stack)
          else if c = CHR '')'' then
            (case stack of
               fr # fr' # rest \<Rightarrow> push_atom (close_frame fr) (fr' # rest)
             | _ \<Rightarrow> None)
          else if c = CHR ''|'' then
            (case stack of
               fr # rest \<Rightarrow> Some (Normal, \<lparr>alts = Some (close_frame fr), cur = Eps\<rparr> # rest)
             | [] \<Rightarrow> None)
          else if c = CHR ''^'' then push_atom Bol stack
          else if c = CHR ''$'' then push_atom Eol stack
          else if c = CHR ''['' then Some (InClass [], stack)
          else if is_syntax_char c then None
          else push_atom (Lit c) stack
      | (Escape, stack) \<Rightarrow>
          if is_syntax_char c then push_atom (Lit c) stack
          else if c = CHR ''s'' then push_atom (Cls [ItemSpace]) stack
          else None
      | (InClass items, stack) \<Rightarrow>
          if c = CHR '']'' then push_atom (Cls items) stack
          else if c = backslash then Some (ClassEscape items, stack)
          else if c = CHR ''^'' \<and> items = [] then None
          else if c = CHR ''-'' \<and> items \<noteq> [] then Some (ClassDash items, stack)
          else Some (InClass (items @ [ItemChar c]), stack)
      | (ClassEscape items, stack) \<Rightarrow>
          if is_syntax_char c \<or> c = CHR ''-'' then Some (InClass (items @ [ItemChar c]), stack)
          else if c = CHR ''s'' then Some (InClass (items @ [ItemSpace]), stack)
          else None
      | (ClassDash items, stack) \<Rightarrow>
          if c = CHR '']'' then push_atom (Cls (items @ [ItemChar (CHR ''-'')])) stack
          else None)"

fun parse_chars :: "mode \<times> frame list \<Rightarrow> string \<Rightarrow> (mode \<times> frame list) option" where
  "parse_chars st [] = Some st"
| "parse_chars st (c # cs) =
     (case parse_step st c of None \<Rightarrow> None | Some st' \<Rightarrow> parse_chars st' cs)"

text \<open>\<^verbatim>\<open>new RegExp(pattern, 'i')\<close>; \<open>None\<close> where the constructor throws.\<close>

definition RegExp_new :: "string \<Rightarrow> regex option" where
  "RegExp_new pattern =
     (case parse_chars (Normal, [\<lparr>alts = None, cur = Eps\<rparr>]) pattern of
        Some (Normal, [fr]) \<Rightarrow> Some (close_frame fr)
      | _ \<Rightarrow> None)"

text \<open>
  Matching with the flag \<^verbatim>\<open>i\<close>: two characters are the same when their upper-case
  forms are. \<open>ends r t i\<close> lists the positions where a match of \<open>r\<close> that starts at
  position \<open>i\<close> of \<open>t\<close> can end.
\<close>

fun item_matches :: "class_item \<Rightarrow> char \<Rightarrow> bool" where
  "item_matches (ItemChar c) d = (upper_char d = upper_char c)"
| "item_matches ItemSpace d = is_space d"

fun ends :: "regex \<Rightarrow> string \<Rightarrow> nat \<Rightarrow> nat list" where
  "ends Eps t i = [i]"
| "ends (Lit c) t i = (if i < length t \<and> upper_char (t ! i) = upper_char c then [Suc i] else [])"
| "ends (Cls items) t i =
     (if i < length t \<and> list_ex (\<lambda>it. item_matches it (t ! i)) items then [Suc i] else [])"
| "ends Bol t i = (if i = 0 then [i] else [])"
| "ends Eol t i = (if i = length t then [i] else [])"
| "ends (Cat a b) t i = concat (map (ends b t) (ends a t i))"
| "ends (Or a b) t i = ends a t i @ ends b t i"

text \<open>\<^verbatim>\<open>regex.test(t)\<close>: a match starts at some position of \<open>t\<close>.\<close>

definition regex_test :: "regex \<Rightarrow> string \<Rightarrow> bool" where
  "regex_test r t = list_ex (\<lambda>i. ends r t i \<noteq> []) [0..<Suc (length t)]"


section \<open>The application state and its handlers\<close>

record parse_stats =
  totalFiles :: nat
  totalSheets :: nat
  totalRecords :: nat
  parseTimeMs :: nat

text \<open>
  The state of the component, and with it the two things of the environment that the
  handlers touch: the number of random draws made so far, and the alerts shown.
\<close>

record app_state =
  records :: "translation_record list"
  isProcessing :: bool
  searchQuery :: string
  stats :: "parse_stats option"
  exactMatches :: "translation_record list"
  fuzzyMatches :: "translation_record list"
  draws :: nat
  alerts :: "string list"

definition init_state :: app_state where
  "init_state =
     \<lparr> records = [], isProcessing = False, searchQuery = [], stats = None,
       exactMatches = [], fuzzyMatches = [], draws = 0, alerts = [] \<rparr>"

text \<open>
  \<^verbatim>\<open>handleFiles\<close>, from the call to its completion; \<open>elapsed\<close> is the time the clock
  measured. A failure of the parser is caught: an alert, and no change of the records.
\<close>

definition handleFiles :: "(nat \<Rightarrow> string) \<Rightarrow> js_file list \<Rightarrow> nat \<Rightarrow> app_state \<Rightarrow> app_state" where
  "handleFiles rnd files elapsed s =
     (case parseExcelFiles rnd (draws s) files of
        (n, Inr newRecords) \<Rightarrow>
          s\<lparr> records := records s @ newRecords,
             stats := Some \<lparr> totalFiles = length files,
                             totalSheets = length (remdups (map taskName newRecords)),
                             totalRecords = length newRecords,
                             parseTimeMs = elapsed \<rparr>,
             draws := n,
             isProcessing := False \<rparr>
      | (n, Inl e) \<Rightarrow>
          s\<lparr> alerts := alerts s @
               [''Failed to parse some files. Please ensure they are valid Excel files.''],
             draws := n,
             isProcessing := False \<rparr>)"

definition handleReset :: "app_state \<Rightarrow> app_state" where
  "handleReset s =
     s\<lparr> records := [], exactMatches := [], fuzzyMatches := [], stats := None, searchQuery := [] \<rparr>"

text \<open>The pattern of the whole-word test, and the test of one record.\<close>

definition exactMatchRegex :: "string \<Rightarrow> regex option" where
  "exactMatchRegex query =
     RegExp_new (''(^|['' @ [backslash] @ ''s._-])'' @ escapeRegExp query @
                 ''(['' @ [backslash] @ ''s._-]|$)'')"

definition is_exact :: "regex \<Rightarrow> string \<Rightarrow> translation_record \<Rightarrow> bool" where
  "is_exact re normQuery r =
     (if toLowerCase (key r) = normQuery \<or> toLowerCase (sourceText r) = normQuery then True
      else if regex_test re (key r) \<or> regex_test re (sourceText r) then True
      else False)"

text \<open>
  The search effect, run with the debounced query \<open>q\<close>. The fuzzy index is a library:
  \<open>fuse_search rs query\<close> stands for the items that an index built over \<open>rs\<close> returns
  for \<open>query\<close>, best match first. There is no index when there are no records, and then
  the effect returns before it sets anything; an exception of the constructor of the
  regular expression would leave the state as it is, too.
\<close>

definition search_effect ::
  "(translation_record list \<Rightarrow> string \<Rightarrow> translation_record list) \<Rightarrow> string \<Rightarrow>
   app_state \<Rightarrow> app_state" where
  "search_effect fuse_search q s =
     (let query = trim q in
      if query = [] then s\<lparr> exactMatches := [], fuzzyMatches := records s \<rparr>
      else if records s = [] then s
      else
        (case exactMatchRegex query of
           None \<Rightarrow> s
         | Some re \<Rightarrow>
             let exact = filter (is_exact re (toLowerCase query)) (records s);
                 exactIds = set (map id_field exact);
                 fuzzy = filter (\<lambda>item. id_field item \<notin> exactIds) (fuse_search (records s) query)
             in s\<lparr> exactMatches := exact, fuzzyMatches := fuzzy \<rparr>))"


section \<open>The drop zone\<close>

text \<open>
  The two handlers of the drop zone. The result is the list that
  \<^verbatim>\<open>onFilesSelected\<close> is called with, \<open>None\<close> when it is not called.
\<close>

definition allowed_name :: "string \<Rightarrow> bool" where
  "allowed_name n = (endsWith n ''.xlsx'' \<or> endsWith n ''.xls'' \<or> endsWith n ''.csv'')"

definition handleDrop :: "bool \<Rightarrow> js_file list \<Rightarrow> js_file list option" where
  "handleDrop processing dropped =
     (if processing then None
      else let files = filter (\<lambda>f. allowed_name (name f)) dropped
           in if length files > 0 then Some files else None)"

text \<open>The file list of the input element may be \<^verbatim>\<open>null\<close>, here \<open>None\<close>.\<close>

definition handleFileInput :: "js_file list option \<Rightarrow> js_file list option" where
  "handleFileInput target_files =
     (case target_files of
        None \<Rightarrow> None
      | Some files \<Rightarrow> if length files > 0 then Some files else None)"


section \<open>Sessions\<close>

text \<open>
  A session is a sequence of events: files dropped, files picked, the reset button, a key
  stroke in the search box, and a run of the search effect with the debounced query of
  that moment. The application passes \<^verbatim>\<open>handleFiles\<close> to the drop zone as
  \<^verbatim>\<open>onFilesSelected\<close>.
\<close>

datatype event =
    Drop "js_file list" nat
  | Pick "js_file list option" nat
  | Reset
  | Typed string
  | Search string

definition step ::
  "(nat \<Rightarrow> string) \<Rightarrow> (translation_record list \<Rightarrow> string \<Rightarrow> translation_record list) \<Rightarrow>
   app_state \<Rightarrow> event \<Rightarrow> app_state" where
  "step rnd fuse_search s e =
     (case e of
        Drop dropped elapsed \<Rightarrow>
          (case handleDrop (isProcessing s) dropped of
             None \<Rightarrow> s
           | Some files \<Rightarrow> handleFiles rnd files elapsed s)
      | Pick target_files elapsed \<Rightarrow>
          (case handleFileInput target_files of
             None \<Rightarrow> s
           | Some files \<Rightarrow> handleFiles rnd files elapsed s)
      | Reset \<Rightarrow> handleReset s
      | Typed q \<Rightarrow> s\<lparr> searchQuery := q \<rparr>
      | Search q \<Rightarrow> search_effect fuse_search q s)"

definition run ::
  "(nat \<Rightarrow> string) \<Rightarrow> (translation_record list \<Rightarrow> string \<Rightarrow> translation_record list) \<Rightarrow>
   event list \<Rightarrow> app_state" where
  "run rnd fuse_search evs = foldl (step rnd fuse_search) init_state evs"

section \<open>Predicates of the specification\<close>

text \<open>
  The separators of a whole-word match, and the whole-word match itself: the query occurs
  in the text, compared without regard to case, with the start of the text or a separator
  before it and a separator or the end of the text after it.
\<close>


definition is_separator :: "char \<Rightarrow> bool" where
  "is_separator c = (is_space c \<or> c = CHR ''.'' \<or> c = CHR ''_'' \<or> c = CHR ''-'')"

definition whole_word_at :: "string \<Rightarrow> string \<Rightarrow> nat \<Rightarrow> bool" where
  "whole_word_at q t i =
     (i + length q \<le> length t \<and>
      toLowerCase (take (length q) (drop i t)) = toLowerCase q \<and>
      (i = 0 \<or> is_separator (t ! (i - 1))) \<and>
      (i + length q = length t \<or> is_separator (t ! (i + length q))))"

definition whole_word :: "string \<Rightarrow> string \<Rightarrow> bool" where
  "whole_word q t = list_ex (whole_word_at q t) [0..<Suc (length t)]"

text \<open>The three conditions of an exact match.\<close>


definition exact_spec :: "string \<Rightarrow> translation_record \<Rightarrow> bool" where
  "exact_spec q r =
     (toLowerCase (key r) = toLowerCase q \<or> toLowerCase (sourceText r) = toLowerCase q \<or>
      whole_word q (key r) \<or> whole_word q (sourceText r))"

text \<open>
  The regular expression that the pattern of the search denotes: the group on the left,
  the characters of the query one after the other, the group on the right.
\<close>


definition literal_seq :: "regex \<Rightarrow> string \<Rightarrow> regex" where
  "literal_seq r q = foldl (\<lambda>r c. Cat r (Lit c)) r q"

definition separator_class :: regex where
  "separator_class = Cls [ItemSpace, ItemChar (CHR ''.''), ItemChar (CHR ''_''), ItemChar (CHR ''-'')]"

definition whole_word_regex :: "string \<Rightarrow> regex" where
  "whole_word_regex q =
     Cat (literal_seq (Cat Eps (Or (Cat Eps Bol) (Cat Eps separator_class))) q)
         (Or (Cat Eps separator_class) (Cat Eps Eol))"

definition ci_match :: "string \<Rightarrow> string \<Rightarrow> nat \<Rightarrow> bool" where
  "ci_match q t k = (k + length q \<le> length t \<and>
     map upper_char (take (length q) (drop k t)) = map upper_char q)"




text \<open>
  \<open>from_draws rnd ks rs\<close>: the records \<open>rs\<close> are records that the parser built, the
  \<open>j\<close>-th of them with draw number \<open>ks ! j\<close>. \<open>extends\<close> relates the state of the
  parser's loop before and after some rows; \<open>session_inv\<close> is the invariant of a session.
\<close>


definition from_draws :: "(nat \<Rightarrow> string) \<Rightarrow> nat list \<Rightarrow> translation_record list \<Rightarrow> bool" where
  "from_draws rnd ks rs =
     (length ks = length rs \<and>
      (\<forall>j<length rs. \<exists>sh i cells. rs ! j = make_record sh i cells (rnd (ks ! j))))"

definition extends ::
  "(nat \<Rightarrow> string) \<Rightarrow> nat \<times> translation_record list \<Rightarrow> nat \<times> translation_record list \<Rightarrow> bool" where
  "extends rnd st st' =
     (\<exists>new. st' = (fst st + length new, snd st @ new) \<and>
            from_draws rnd [fst st..<fst st + length new] new)"

definition session_inv :: "(nat \<Rightarrow> string) \<Rightarrow> app_state \<Rightarrow> bool" where
  "session_inv rnd s =
     (\<exists>ks. from_draws rnd ks (records s) \<and> sorted_wrt (<) ks \<and> (\<forall>k\<in>set ks. k < draws s))"


text \<open>
  The ids of a list of records, and the invariant of the two result lists: they are empty
  when there are no records, and no id is in both.
\<close>

definition ids :: "translation_record list \<Rightarrow> string set" where
  "ids rs = set (map id_field rs)"

definition results_inv :: "app_state \<Rightarrow> bool" where
  "results_inv s =
     ((records s = [] \<longrightarrow> exactMatches s = [] \<and> fuzzyMatches s = []) \<and>
      ids (exactMatches s) \<inter> ids (fuzzyMatches s) = {})"


section \<open>Example data\<close>

text \<open>
  A sheet with a header row, two rows of data and an empty row; a file that holds it; a
  file that cannot be read; draws that are all different; a fuzzy index that returns every
  record; and the state after the first file has been dropped.
\<close>

definition example_sheet :: "string \<times> cell list option list" where
  "example_sheet =
     (''Sheet1'',
      [Some [CStr ''#'', CStr ''Key'', CStr ''Source''],
       Some [CStr ''1'', CStr ''greeting'', CStr ''Hello World''],
       Some [CStr ''2'', CStr ''farewell'', CStr ''Goodbye''],
       Some [CStr ''3'', CStr [], CStr []]])"

definition example_file :: js_file where
  "example_file = \<lparr> name = ''history.xlsx'', content = Some [example_sheet] \<rparr>"

definition unreadable_file :: js_file where
  "unreadable_file = \<lparr> name = ''broken.xlsx'', content = None \<rparr>"

definition example_rnd :: "nat \<Rightarrow> string" where
  "example_rnd n = string_of_nat n"

definition example_fuse :: "translation_record list \<Rightarrow> string \<Rightarrow> translation_record list" where
  "example_fuse rs query = rs"

definition example_state :: app_state where
  "example_state = run example_rnd example_fuse [Drop [example_file] 7]"



definition padded_file :: js_file where
  "padded_file =
     \<lparr> name = ''padded.xlsx'',
       content = Some [(''Sheet1'', [Some [CStr ''1'', CStr '' greeting  '', CStr ''  Hello World '']])] \<rparr>"

definition upper_case_file :: js_file where
  "upper_case_file = \<lparr> name = ''REPORT.XLSX'', content = Some [example_sheet] \<rparr>"

definition text_file :: js_file where
  "text_file = \<lparr> name = ''notes.txt'', content = Some [example_sheet] \<rparr>"

definition greeting_record :: translation_record where
  "greeting_record =
     \<lparr> id_field = ''Sheet1-1-0'', taskName = ''Sheet1'', originalId = ''1'', key = ''greeting'',
       sourceText = ''Hello World'', notes_field = [] \<rparr>"

definition farewell_record :: translation_record where
  "farewell_record =
     \<lparr> id_field = ''Sheet1-2-1'', taskName = ''Sheet1'', originalId = ''2'', key = ''farewell'',
       sourceText = ''Goodbye'', notes_field = [] \<rparr>"


section \<open>Strings: lemmas\<close>


lemma trim_idem: "trim (trim s) = trim s"
proof -
  define u where "u = dropWhile is_space s"
  define v where "v = rev (dropWhile is_space (rev u))"
  have tv: "trim s = v" by (simp add: trim_def u_def v_def)
  have "trim v = v"
  proof (cases "v = []")
    case True
    then show ?thesis by (simp add: trim_def)
  next
    case False
    have "dropWhile is_space (rev u) \<noteq> []" using False by (simp add: v_def)
    then have nl: "\<not> is_space (hd (dropWhile is_space (rev u)))"
      by (rule hd_dropWhile)
    have "u \<noteq> []" using False by (auto simp: v_def)
    then have nh: "\<not> is_space (hd u)" unfolding u_def by (rule hd_dropWhile)
    obtain w where uw: "rev u = w @ rev v"
      by (metis takeWhile_dropWhile_id v_def rev_rev_ident)
    then have "u = v @ rev w" by (metis rev_append rev_rev_ident)
    then have "hd v = hd u" using False by simp
    then have 1: "dropWhile is_space v = v" using nh False
      by (simp add: dropWhile_eq_self_iff)
    have "hd (rev v) = hd (dropWhile is_space (rev u))" by (simp add: v_def)
    then have 2: "dropWhile is_space (rev v) = rev v" using nl
      by (simp add: dropWhile_eq_self_iff)
    show ?thesis by (simp add: trim_def 1 2)
  qed
  then show ?thesis by (simp add: tv)
qed

lemma upper_lower: "upper_char (lower_char c) = upper_char c"
  by (auto simp add: upper_char_def lower_char_def Let_def)

lemma lower_upper: "lower_char (upper_char c) = lower_char c"
  by (auto simp add: upper_char_def lower_char_def Let_def)

lemma upper_eq_iff: "upper_char a = upper_char b \<longleftrightarrow> lower_char a = lower_char b"
  by (metis upper_lower lower_upper)

lemma map_upper_eq_iff: "map upper_char a = map upper_char b \<longleftrightarrow> map lower_char a = map lower_char b"
proof (induction a arbitrary: b)
  case Nil
  then show ?case by simp
next
  case (Cons x xs)
  then show ?case by (cases b) (simp_all add: upper_eq_iff)
qed

lemma char_of_eq_D: "char_of (m::nat) = c \<Longrightarrow> m < 256 \<Longrightarrow> m = of_char c"
  by auto

lemma upper_fixed:
  "upper_char c = CHR ''.'' \<longleftrightarrow> c = CHR ''.''"
  "upper_char c = CHR ''_'' \<longleftrightarrow> c = CHR ''_''"
  "upper_char c = CHR ''-'' \<longleftrightarrow> c = CHR ''-''"
  by (auto simp add: upper_char_def Let_def dest!: char_of_eq_D)


section \<open>The pattern of the search is the whole-word test\<close>


lemma parse_chars_append:
  "parse_chars st (a @ b) = (case parse_chars st a of None \<Rightarrow> None | Some st' \<Rightarrow> parse_chars st' b)"
  by (induction a arbitrary: st) (simp_all split: option.splits)

lemma syntax_chars:
  "is_syntax_char backslash" "is_syntax_char (CHR ''('')" "is_syntax_char (CHR '')'')"
  "is_syntax_char (CHR ''|'')" "is_syntax_char (CHR ''^'')" "is_syntax_char (CHR ''$'')"
  "is_syntax_char (CHR ''['')"
  by (simp_all add: is_syntax_char_def)

lemma parse_step_literal:
  "\<not> is_syntax_char c \<Longrightarrow>
   parse_step (Normal, fr # rest) c = Some (Normal, fr\<lparr>cur := Cat (cur fr) (Lit c)\<rparr> # rest)"
  using syntax_chars by (auto simp add: parse_step_def push_atom_def)

lemma parse_step_escaped:
  "is_syntax_char c \<Longrightarrow>
   parse_chars (Normal, fr # rest) (backslash # c # cs) =
   parse_chars (Normal, fr\<lparr>cur := Cat (cur fr) (Lit c)\<rparr> # rest) cs"
  by (simp add: parse_step_def push_atom_def)

lemma parse_escaped:
  "parse_chars (Normal, fr # rest) (escapeRegExp q) =
   Some (Normal, fr\<lparr>cur := literal_seq (cur fr) q\<rparr> # rest)"
proof (induction q arbitrary: fr)
  case Nil
  then show ?case by (simp add: literal_seq_def)
next
  case (Cons c cs)
  show ?case
  proof (cases "is_syntax_char c")
    case True
    then show ?thesis
      using Cons.IH [of "fr\<lparr>cur := Cat (cur fr) (Lit c)\<rparr>"]
      by (simp add: parse_step_escaped literal_seq_def del: parse_chars.simps)
  next
    case False
    then show ?thesis
      using Cons.IH [of "fr\<lparr>cur := Cat (cur fr) (Lit c)\<rparr>"]
      by (simp add: parse_step_literal literal_seq_def)
  qed
qed

lemma parse_prefix:
  "parse_chars (Normal, [\<lparr>alts = None, cur = Eps\<rparr>]) (''(^|['' @ [backslash] @ ''s._-])'') =
   Some (Normal, [\<lparr>alts = None, cur = Cat Eps (Or (Cat Eps Bol) (Cat Eps separator_class))\<rparr>])"
  by (simp add: parse_step_def push_atom_def close_frame_def backslash_def is_syntax_char_def separator_class_def)

lemma parse_suffix:
  "parse_chars (Normal, [\<lparr>alts = None, cur = r\<rparr>]) (''(['' @ [backslash] @ ''s._-]|$)'') =
   Some (Normal, [\<lparr>alts = None, cur = Cat r (Or (Cat Eps separator_class) (Cat Eps Eol))\<rparr>])"
  by (simp add: parse_step_def push_atom_def close_frame_def backslash_def is_syntax_char_def separator_class_def)

lemma exactMatchRegex_eq: "exactMatchRegex q = Some (whole_word_regex q)"
proof -
  define P where "P = ''(^|['' @ [backslash] @ ''s._-])''"
  define S where "S = ''(['' @ [backslash] @ ''s._-]|$)''"
  have 1: "parse_chars (Normal, [\<lparr>alts = None, cur = Eps\<rparr>]) P =
      Some (Normal, [\<lparr>alts = None, cur = Cat Eps (Or (Cat Eps Bol) (Cat Eps separator_class))\<rparr>])"
    unfolding P_def by (rule parse_prefix)
  have 2: "parse_chars (Normal, [\<lparr>alts = None, cur = r\<rparr>]) S =
      Some (Normal, [\<lparr>alts = None, cur = Cat r (Or (Cat Eps separator_class) (Cat Eps Eol))\<rparr>])" for r
    unfolding S_def by (rule parse_suffix)
  have "parse_chars (Normal, [\<lparr>alts = None, cur = Eps\<rparr>]) (P @ escapeRegExp q @ S) =
      Some (Normal, [\<lparr>alts = None, cur = whole_word_regex q\<rparr>])"
    by (simp add: parse_chars_append 1 2 parse_escaped whole_word_regex_def)
  moreover have "exactMatchRegex q = RegExp_new (P @ escapeRegExp q @ S)"
    by (simp add: exactMatchRegex_def P_def S_def)
  ultimately show ?thesis
    by (simp add: RegExp_new_def close_frame_def)
qed

lemma sep_items_matches:
  "list_ex (\<lambda>it. item_matches it d) [ItemSpace, ItemChar (CHR ''.''), ItemChar (CHR ''_''), ItemChar (CHR ''-'')]
   \<longleftrightarrow> is_separator d"
proof -
  have u: "upper_char (CHR ''.'') = CHR ''.''" "upper_char (CHR ''_'') = CHR ''_''"
       "upper_char (CHR ''-'') = CHR ''-''"
    by (simp_all add: upper_char_def)
  show ?thesis
    by (simp add: is_separator_def u upper_fixed)
qed

lemma literal_seq_snoc: "literal_seq r (q @ [c]) = Cat (literal_seq r q) (Lit c)"
  by (simp add: literal_seq_def)

lemma ci_match_snoc:
  "ci_match (q @ [c]) t k \<longleftrightarrow>
   ci_match q t k \<and> k + length q < length t \<and> upper_char (t ! (k + length q)) = upper_char c"
proof (cases "k + length q < length t")
  case True
  then have "take (Suc (length q)) (drop k t) = take (length q) (drop k t) @ [t ! (k + length q)]"
    by (simp add: take_Suc_conv_app_nth)
  then show ?thesis using True by (auto simp add: ci_match_def)
next
  case False
  then show ?thesis by (auto simp add: ci_match_def)
qed

lemma ends_le: "i \<le> length t \<Longrightarrow> k \<in> set (ends r t i) \<Longrightarrow> k \<le> length t"
proof (induction r arbitrary: i k)
  case Eps
  then show ?case by simp
next
  case (Lit c)
  then show ?case by (simp split: if_splits)
next
  case (Cls items)
  then show ?case by (simp split: if_splits)
next
  case Bol
  then show ?case by (simp split: if_splits)
next
  case Eol
  then show ?case by (simp split: if_splits)
next
  case (Cat a b)
  from Cat.prems(2) obtain j where j: "j \<in> set (ends a t i)" "k \<in> set (ends b t j)"
    by auto
  have "j \<le> length t" using Cat.IH(1) [OF Cat.prems(1) j(1)] .
  then show ?case using j(2) by (rule Cat.IH(2))
next
  case (Or a b)
  from Or.prems(2) have "k \<in> set (ends a t i) \<or> k \<in> set (ends b t i)" by simp
  then show ?case using Or.IH Or.prems(1) by blast
qed

lemma ends_literal_seq:
  "i \<le> length t \<Longrightarrow>
   set (ends (literal_seq r q) t i) = {k + length q | k. k \<in> set (ends r t i) \<and> ci_match q t k}"
proof (induction q rule: rev_induct)
  case Nil
  then show ?case using ends_le [of i t _ r] by (auto simp add: literal_seq_def ci_match_def)
next
  case (snoc c q)
  then show ?case
    by (auto simp add: literal_seq_snoc ci_match_snoc)
qed

lemma ends_separator_class:
  "ends separator_class t i = (if i < length t \<and> is_separator (t ! i) then [Suc i] else [])"
  unfolding separator_class_def ends.simps sep_items_matches by (rule refl)

lemma ends_left:
  "set (ends (Cat Eps (Or (Cat Eps Bol) (Cat Eps separator_class))) t i) =
   {k. (k = 0 \<and> i = 0) \<or> (k = Suc i \<and> i < length t \<and> is_separator (t ! i))}"
  by (auto simp add: ends_separator_class)

lemma ends_right:
  "ends (Or (Cat Eps separator_class) (Cat Eps Eol)) t j \<noteq> [] \<longleftrightarrow>
   (j < length t \<and> is_separator (t ! j)) \<or> j = length t"
  by (auto simp add: ends_separator_class)

lemma ci_match_lower:
  "ci_match q t k \<longleftrightarrow> k + length q \<le> length t \<and> toLowerCase (take (length q) (drop k t)) = toLowerCase q"
  by (simp add: ci_match_def toLowerCase_def map_upper_eq_iff)

lemma ends_whole_word:
  assumes "i \<le> length t"
  shows "ends (whole_word_regex q) t i \<noteq> [] \<longleftrightarrow>
         (i = 0 \<and> whole_word_at q t 0) \<or> (i < length t \<and> is_separator (t ! i) \<and> whole_word_at q t (Suc i))"
proof -
  let ?L = "Cat Eps (Or (Cat Eps Bol) (Cat Eps separator_class))"
  let ?R = "Or (Cat Eps separator_class) (Cat Eps Eol)"
  have "ends (whole_word_regex q) t i = concat (map (ends ?R t) (ends (literal_seq ?L q) t i))"
    unfolding whole_word_regex_def by (rule ends.simps(6))
  then have "ends (whole_word_regex q) t i \<noteq> [] \<longleftrightarrow>
        (\<exists>j \<in> set (ends (literal_seq ?L q) t i). ends ?R t j \<noteq> [])"
    by (simp del: ends.simps)
  also have "\<dots> \<longleftrightarrow> (\<exists>k. ((k = 0 \<and> i = 0) \<or> (k = Suc i \<and> i < length t \<and> is_separator (t ! i))) \<and>
        ci_match q t k \<and>
        ((k + length q < length t \<and> is_separator (t ! (k + length q))) \<or> k + length q = length t))"
    unfolding ends_literal_seq [OF assms] ends_left ends_right by blast
  also have "\<dots> \<longleftrightarrow> (i = 0 \<and> whole_word_at q t 0) \<or>
        (i < length t \<and> is_separator (t ! i) \<and> whole_word_at q t (Suc i))"
    unfolding whole_word_at_def ci_match_lower by auto
  finally show ?thesis .
qed

lemma list_ex_upt_Suc: "list_ex P [0..<Suc n] \<longleftrightarrow> (\<exists>i\<le>n. P i)"
proof -
  have mem: "i \<in> set [0..<Suc n] \<longleftrightarrow> i \<le> n" for i by auto
  show ?thesis unfolding list_ex_iff Bex_def mem ..
qed

lemma regex_test_whole_word: "regex_test (whole_word_regex q) t \<longleftrightarrow> whole_word q t"
proof -
  have "regex_test (whole_word_regex q) t \<longleftrightarrow>
        (\<exists>i \<le> length t. ends (whole_word_regex q) t i \<noteq> [])"
    unfolding regex_test_def list_ex_upt_Suc ..
  also have "\<dots> \<longleftrightarrow> (\<exists>i \<le> length t. (i = 0 \<and> whole_word_at q t 0) \<or>
        (i < length t \<and> is_separator (t ! i) \<and> whole_word_at q t (Suc i)))"
    using ends_whole_word by blast
  also have "\<dots> \<longleftrightarrow> (\<exists>k \<le> length t. whole_word_at q t k)"
  proof
    assume "\<exists>i \<le> length t. (i = 0 \<and> whole_word_at q t 0) \<or>
        (i < length t \<and> is_separator (t ! i) \<and> whole_word_at q t (Suc i))"
    then show "\<exists>k \<le> length t. whole_word_at q t k" by (metis Suc_leI le0)
  next
    assume "\<exists>k \<le> length t. whole_word_at q t k"
    then obtain k where k: "k \<le> length t" "whole_word_at q t k" by blast
    show "\<exists>i \<le> length t. (i = 0 \<and> whole_word_at q t 0) \<or>
        (i < length t \<and> is_separator (t ! i) \<and> whole_word_at q t (Suc i))"
    proof (cases k)
      case 0
      then show ?thesis using k by auto
    next
      case (Suc i)
      then have "i < length t" "is_separator (t ! i)" using k by (auto simp add: whole_word_at_def)
      then show ?thesis using k Suc by (intro exI [of _ i]) auto
    qed
  qed
  also have "\<dots> \<longleftrightarrow> whole_word q t"
    unfolding whole_word_def list_ex_upt_Suc ..
  finally show ?thesis .
qed

lemma is_exact_spec:
  "is_exact (whole_word_regex q) (toLowerCase q) r \<longleftrightarrow> exact_spec q r"
  by (simp add: is_exact_def exact_spec_def regex_test_whole_word)


section \<open>The records of a call of the parser\<close>


lemma process_rows_append:
  "process_rows rnd sh i (xs @ ys) st = process_rows rnd sh (i + length xs) ys (process_rows rnd sh i xs st)"
  by (induction xs arbitrary: i st) simp_all

lemma header_none:
  "is_header rowIndex cells \<Longrightarrow> process_row rnd sheetName rowIndex (Some cells) st = st"
  by (simp add: process_row_def)

lemma parse_files_fail:
  "\<exists>f\<in>set files. content f = None \<Longrightarrow> \<exists>n. parse_files rnd files st = (n, Inl ParseError)"
proof (induction files arbitrary: st)
  case Nil
  then show ?case by simp
next
  case (Cons f fs)
  show ?case
  proof (cases "content f")
    case None
    then show ?thesis by simp
  next
    case (Some wb)
    with Cons.prems have "\<exists>f\<in>set fs. content f = None" by auto
    from Cons.IH [OF this] show ?thesis using Some by simp
  qed
qed

lemma from_draws_Nil: "from_draws rnd [] []"
  by (simp add: from_draws_def)

lemma from_draws_append:
  "from_draws rnd ks rs \<Longrightarrow> from_draws rnd ks' rs' \<Longrightarrow> from_draws rnd (ks @ ks') (rs @ rs')"
  by (auto simp add: from_draws_def nth_append)

lemma from_draws_single: "from_draws rnd [n] [make_record sh i cells (rnd n)]"
  by (auto simp add: from_draws_def)

lemma extends_refl: "extends rnd st st"
  unfolding extends_def by (intro exI [of _ "[]"]) (simp add: from_draws_Nil)

lemma extends_trans:
  assumes "extends rnd st st'" "extends rnd st' st''"
  shows "extends rnd st st''"
proof -
  obtain a where a: "st' = (fst st + length a, snd st @ a)"
      "from_draws rnd [fst st..<fst st + length a] a"
    using assms(1) unfolding extends_def by blast
  obtain b where b: "st'' = (fst st' + length b, snd st' @ b)"
      "from_draws rnd [fst st'..<fst st' + length b] b"
    using assms(2) unfolding extends_def by blast
  have f: "fst st' = fst st + length a" "snd st' = snd st @ a"
    unfolding a(1) by simp_all
  have 1: "st'' = (fst st + length (a @ b), snd st @ (a @ b))"
    unfolding b(1) f by simp
  have "[fst st..<(fst st + length a) + length b] =
        [fst st..<fst st + length a] @ [fst st + length a..<(fst st + length a) + length b]"
    by (rule upt_add_eq_append) simp
  then have 2: "[fst st..<fst st + length (a @ b)] =
        [fst st..<fst st + length a] @ [fst st + length a..<fst st + length a + length b]"
    by (simp only: length_append add.assoc)
  have "from_draws rnd ([fst st..<fst st + length a] @ [fst st + length a..<fst st + length a + length b]) (a @ b)"
    using a(2) b(2) unfolding f by (rule from_draws_append)
  then have "from_draws rnd [fst st..<fst st + length (a @ b)] (a @ b)"
    unfolding 2 .
  with 1 show ?thesis unfolding extends_def by blast
qed

lemma process_row_extends: "extends rnd st (process_row rnd sh i row st)"
proof (cases "process_row rnd sh i row st = st")
  case True
  then show ?thesis by (simp add: extends_refl)
next
  case False
  then obtain cells where
    "process_row rnd sh i row st = (Suc (fst st), snd st @ [make_record sh i cells (rnd (fst st))])"
    by (auto simp add: process_row_def split: option.splits if_splits)
  then show ?thesis unfolding extends_def
    by (intro exI [of _ "[make_record sh i cells (rnd (fst st))]"]) (simp add: from_draws_single)
qed

lemma process_rows_extends: "extends rnd st (process_rows rnd sh i rows st)"
proof (induction rows arbitrary: i st)
  case Nil
  show ?case by (simp add: extends_refl)
next
  case (Cons row rows)
  have "extends rnd st (process_row rnd sh i row st)" by (rule process_row_extends)
  moreover have "extends rnd (process_row rnd sh i row st)
      (process_rows rnd sh (Suc i) rows (process_row rnd sh i row st))" by (rule Cons.IH)
  ultimately show ?case unfolding process_rows.simps by (rule extends_trans)
qed

lemma process_sheets_extends: "extends rnd st (process_sheets rnd wb st)"
proof (induction wb arbitrary: st)
  case Nil
  show ?case by (simp add: extends_refl)
next
  case (Cons sheet wb)
  obtain sh rows where sheet: "sheet = (sh, rows)" by (cases sheet)
  have "extends rnd st (process_rows rnd sh 0 rows st)" by (rule process_rows_extends)
  moreover have "extends rnd (process_rows rnd sh 0 rows st)
      (process_sheets rnd wb (process_rows rnd sh 0 rows st))" by (rule Cons.IH)
  ultimately show ?case unfolding sheet process_sheets.simps by (rule extends_trans)
qed

lemma parse_files_extends:
  "parse_files rnd files st = (n, Inr recs) \<Longrightarrow> extends rnd st (n, recs)"
proof (induction files arbitrary: st)
  case Nil
  then have "st = (n, recs)" by (cases st) simp
  then show ?case by (simp add: extends_refl)
next
  case (Cons f fs)
  then obtain wb where wb: "content f = Some wb"
    by (cases "content f") simp_all
  with Cons.prems have "parse_files rnd fs (process_sheets rnd wb st) = (n, Inr recs)" by simp
  then have "extends rnd (process_sheets rnd wb st) (n, recs)" by (rule Cons.IH)
  with process_sheets_extends show ?case by (rule extends_trans)
qed

lemma extends_fst_le: "extends rnd st st' \<Longrightarrow> fst st \<le> fst st'"
  unfolding extends_def by auto

lemma parse_files_draws_le: "fst st \<le> fst (parse_files rnd files st)"
proof (induction files arbitrary: st)
  case Nil
  show ?case by simp
next
  case (Cons f fs)
  show ?case
  proof (cases "content f")
    case None
    then show ?thesis by simp
  next
    case (Some wb)
    have "fst st \<le> fst (process_sheets rnd wb st)"
      using process_sheets_extends by (rule extends_fst_le)
    also have "\<dots> \<le> fst (parse_files rnd fs (process_sheets rnd wb st))" by (rule Cons.IH)
    finally show ?thesis using Some by simp
  qed
qed

lemma parseExcelFiles_ok:
  assumes "parseExcelFiles rnd n files = (n', Inr recs)"
  shows "n' = n + length recs" "from_draws rnd [n..<n + length recs] recs"
proof -
  have "extends rnd (n, []) (n', recs)"
    using assms unfolding parseExcelFiles_def by (rule parse_files_extends)
  then show "n' = n + length recs" "from_draws rnd [n..<n + length recs] recs"
    unfolding extends_def by auto
qed

lemma parseExcelFiles_draws_le: "n \<le> fst (parseExcelFiles rnd n files)"
  unfolding parseExcelFiles_def using parse_files_draws_le [of "(n, [])" rnd files] by simp


section \<open>The invariant of a session\<close>


lemma handleFiles_cases:
  obtains (ok) n recs where "parseExcelFiles rnd (draws s) files = (n, Inr recs)"
      "handleFiles rnd files elapsed s =
         s\<lparr> records := records s @ recs,
            stats := Some \<lparr> totalFiles = length files,
                            totalSheets = length (remdups (map taskName recs)),
                            totalRecords = length recs,
                            parseTimeMs = elapsed \<rparr>,
            draws := n, isProcessing := False \<rparr>"
  | (fail) n e where "parseExcelFiles rnd (draws s) files = (n, Inl e)"
      "handleFiles rnd files elapsed s =
         s\<lparr> alerts := alerts s @
              [''Failed to parse some files. Please ensure they are valid Excel files.''],
            draws := n, isProcessing := False \<rparr>"
proof (cases "parseExcelFiles rnd (draws s) files")
  case (Pair n res)
  then show ?thesis
    by (cases res) (auto simp add: handleFiles_def intro: ok fail)
qed

lemma handleFiles_records:
  "\<exists>new. records (handleFiles rnd files elapsed s) = records s @ new"
  by (cases rule: handleFiles_cases [of rnd s files elapsed]) simp_all

lemma handleFiles_results:
  "exactMatches (handleFiles rnd files elapsed s) = exactMatches s"
  "fuzzyMatches (handleFiles rnd files elapsed s) = fuzzyMatches s"
  by (cases rule: handleFiles_cases [of rnd s files elapsed]; simp)+

lemma handleFiles_draws_le: "draws s \<le> draws (handleFiles rnd files elapsed s)"
proof (cases rule: handleFiles_cases [of rnd s files elapsed])
  case (ok n recs)
  then show ?thesis using parseExcelFiles_draws_le [of "draws s" rnd files] by simp
next
  case (fail n e)
  then show ?thesis using parseExcelFiles_draws_le [of "draws s" rnd files] by simp
qed

lemma sorted_wrt_less_append_upt:
  "sorted_wrt (<) ks \<Longrightarrow> \<forall>k\<in>set ks. k < n \<Longrightarrow> sorted_wrt (<) (ks @ [n..<m])"
  by (auto simp add: sorted_wrt_append)

lemma session_inv_handleFiles:
  assumes "session_inv rnd s"
  shows "session_inv rnd (handleFiles rnd files elapsed s)"
proof -
  obtain ks where ks: "from_draws rnd ks (records s)" "sorted_wrt (<) ks" "\<forall>k\<in>set ks. k < draws s"
    using assms unfolding session_inv_def by blast
  show ?thesis
  proof (cases rule: handleFiles_cases [of rnd s files elapsed])
    case (ok n recs)
    note p = parseExcelFiles_ok [OF ok(1)]
    have 1: "from_draws rnd (ks @ [draws s..<draws s + length recs]) (records s @ recs)"
      using ks(1) p(2) by (rule from_draws_append)
    have 2: "sorted_wrt (<) (ks @ [draws s..<draws s + length recs])"
      using ks(2,3) by (rule sorted_wrt_less_append_upt)
    have 3: "\<forall>k\<in>set (ks @ [draws s..<draws s + length recs]). k < n"
      using ks(3) p(1) by auto
    show ?thesis unfolding session_inv_def ok(2) using 1 2 3
      by (intro exI [of _ "ks @ [draws s..<draws s + length recs]"]) simp
  next
    case (fail n e)
    have "draws s \<le> n" using parseExcelFiles_draws_le [of "draws s" rnd files] fail(1) by simp
    then have "\<forall>k\<in>set ks. k < n" using ks(3) by auto
    then show ?thesis unfolding session_inv_def fail(2) using ks(1,2)
      by (intro exI [of _ ks]) simp
  qed
qed

lemma search_effect_records:
  "records (search_effect fuse_search q s) = records s"
  "draws (search_effect fuse_search q s) = draws s"
  by (simp_all add: search_effect_def Let_def split: option.splits)

lemma session_inv_step:
  assumes "session_inv rnd s"
  shows "session_inv rnd (step rnd fuse_search s e)"
proof (cases e)
  case (Drop dropped elapsed)
  then show ?thesis using assms session_inv_handleFiles
    by (simp add: step_def split: option.splits)
next
  case (Pick target_files elapsed)
  then show ?thesis using assms session_inv_handleFiles
    by (simp add: step_def split: option.splits)
next
  case Reset
  then show ?thesis
    by (simp add: step_def handleReset_def session_inv_def from_draws_Nil exI [of _ "[]"])
next
  case (Typed q)
  then show ?thesis using assms by (simp add: step_def session_inv_def)
next
  case (Search q)
  then show ?thesis using assms by (simp add: step_def session_inv_def search_effect_records)
qed

lemma session_inv_foldl:
  "session_inv rnd s \<Longrightarrow> session_inv rnd (foldl (step rnd fuse_search) s evs)"
  by (induction evs arbitrary: s) (simp_all add: session_inv_step)

lemma session_inv_run: "session_inv rnd (run rnd fuse_search evs)"
  unfolding run_def
  by (rule session_inv_foldl) (simp add: session_inv_def init_state_def from_draws_Nil exI [of _ "[]"])


section \<open>The ids of the records\<close>







lemma from_draws_trimmed:
  assumes "from_draws rnd ks rs" "r \<in> set rs"
  shows "trim (key r) = key r \<and> trim (sourceText r) = sourceText r"
proof -
  obtain j where j: "j < length rs" "rs ! j = r" using assms(2) by (auto simp add: in_set_conv_nth)
  then obtain sh i cells where "r = make_record sh i cells (rnd (ks ! j))"
    using assms(1) unfolding from_draws_def by metis
  then show ?thesis by (simp add: make_record_def keyVal_def sourceVal_def trim_idem)
qed


section \<open>The search effect and the invariant of its results\<close>


lemma search_effect_nonempty:
  assumes "trim q \<noteq> []" "records s \<noteq> []"
  shows "exactMatches (search_effect fuse_search q s) = filter (exact_spec (trim q)) (records s)"
    and "fuzzyMatches (search_effect fuse_search q s) =
         filter (\<lambda>item. id_field item \<notin> ids (filter (exact_spec (trim q)) (records s)))
           (fuse_search (records s) (trim q))"
proof -
  have "is_exact (whole_word_regex (trim q)) (toLowerCase (trim q)) = exact_spec (trim q)"
    by (rule ext) (rule is_exact_spec)
  then show "exactMatches (search_effect fuse_search q s) = filter (exact_spec (trim q)) (records s)"
    and "fuzzyMatches (search_effect fuse_search q s) =
         filter (\<lambda>item. id_field item \<notin> ids (filter (exact_spec (trim q)) (records s)))
           (fuse_search (records s) (trim q))"
    using assms by (simp_all add: search_effect_def Let_def exactMatchRegex_eq ids_def)
qed

lemma search_effect_no_index:
  "trim q \<noteq> [] \<Longrightarrow> records s = [] \<Longrightarrow> search_effect fuse_search q s = s"
  by (simp add: search_effect_def)

lemma search_effect_empty_query:
  "trim q = [] \<Longrightarrow>
   search_effect fuse_search q s = s\<lparr> exactMatches := [], fuzzyMatches := records s \<rparr>"
  by (simp add: search_effect_def)

lemma ids_filter_disjoint:
  "ids E \<inter> ids (filter (\<lambda>item. id_field item \<notin> ids E) ys) = {}"
proof -
  have "x \<notin> ids (filter (\<lambda>item. id_field item \<notin> ids E) ys)" if "x \<in> ids E" for x
  proof
    assume "x \<in> ids (filter (\<lambda>item. id_field item \<notin> ids E) ys)"
    then obtain item :: translation_record where "x = id_field item" "id_field item \<notin> ids E"
      unfolding ids_def [of "filter _ _"] by auto
    with that show False by simp
  qed
  then show ?thesis by blast
qed

lemma results_inv_search:
  assumes "results_inv s"
  shows "results_inv (search_effect fuse_search q s)"
proof (cases "trim q = []")
  case True
  then show ?thesis by (simp add: search_effect_empty_query results_inv_def ids_def)
next
  case False
  show ?thesis
  proof (cases "records s = []")
    case True
    then show ?thesis using assms False by (simp add: search_effect_no_index)
  next
    case nonempty: False
    have "ids (exactMatches (search_effect fuse_search q s)) \<inter>
          ids (fuzzyMatches (search_effect fuse_search q s)) = {}"
      unfolding search_effect_nonempty [OF False nonempty] by (rule ids_filter_disjoint)
    then show ?thesis using nonempty
      by (simp add: results_inv_def search_effect_records)
  qed
qed

lemma results_inv_handleFiles:
  assumes "results_inv s"
  shows "results_inv (handleFiles rnd files elapsed s)"
proof -
  obtain new where "records (handleFiles rnd files elapsed s) = records s @ new"
    using handleFiles_records by blast
  then show ?thesis using assms by (simp add: results_inv_def handleFiles_results)
qed

lemma results_inv_step:
  assumes "results_inv s"
  shows "results_inv (step rnd fuse_search s e)"
proof (cases e)
  case (Drop dropped elapsed)
  then show ?thesis using assms results_inv_handleFiles
    by (simp add: step_def split: option.splits)
next
  case (Pick target_files elapsed)
  then show ?thesis using assms results_inv_handleFiles
    by (simp add: step_def split: option.splits)
next
  case Reset
  then show ?thesis by (simp add: step_def handleReset_def results_inv_def ids_def)
next
  case (Typed q)
  then show ?thesis using assms by (simp add: step_def results_inv_def)
next
  case (Search q)
  then show ?thesis using assms by (simp add: step_def results_inv_search)
qed

lemma results_inv_foldl:
  "results_inv s \<Longrightarrow> results_inv (foldl (step rnd fuse_search) s evs)"
  by (induction evs arbitrary: s) (simp_all add: results_inv_step)

lemma results_inv_run: "results_inv (run rnd fuse_search evs)"
  unfolding run_def
  by (rule results_inv_foldl) (simp add: results_inv_def init_state_def ids_def)


section \<open>The example data, evaluated\<close>


lemma example_state_records:
  "records example_state =
     [\<lparr> id_field = ''Sheet1-1-0'', taskName = ''Sheet1'', originalId = ''1'', key = ''greeting'',
         sourceText = ''Hello World'', notes_field = [] \<rparr>,
      \<lparr> id_field = ''Sheet1-2-1'', taskName = ''Sheet1'', originalId = ''2'', key = ''farewell'',
         sourceText = ''Goodbye'', notes_field = [] \<rparr>]"
  by code_simp


section \<open>The claims about the normalizer\<close>

text \<open>
  C4. A row among the first five rows of its sheet, whose key candidate is "key" or "id"
  and whose source candidate is "value" or "source" or contains "text", all without regard
  to case, produces no record: the loop body leaves the state as it is, and the sheet gives
  what the rows before it and the rows after it give. The row \<open>["#", "Key", "Source"]\<close> at
  index 0 is such a row.
\<close>

theorem header_row_discarded:
  assumes "length before < 5"
    and "toLowerCase (keyVal cells) = ''key'' \<or> toLowerCase (keyVal cells) = ''id''"
    and "toLowerCase (sourceVal cells) = ''value'' \<or> toLowerCase (sourceVal cells) = ''source'' \<or>
         includes_str (toLowerCase (sourceVal cells)) ''text''"
  shows "process_row rnd sheetName (length before) (Some cells) st = st \<and>
         process_rows rnd sheetName 0 (before @ Some cells # after) st =
         process_rows rnd sheetName (Suc (length before)) after
           (process_rows rnd sheetName 0 before st)"
proof -
  have "is_header (length before) cells"
    using assms by (simp add: is_header_def)
  then have "process_row rnd sheetName (length before) (Some cells) st' = st'" for st'
    by (rule header_none)
  then show ?thesis by (simp add: process_rows_append)
qed

theorem header_row_discarded_witness:
  "length ([] :: cell list option list) < 5 \<and>
   toLowerCase (keyVal [CStr ''#'', CStr ''Key'', CStr ''Source'']) = ''key'' \<and>
   toLowerCase (sourceVal [CStr ''#'', CStr ''Key'', CStr ''Source'']) = ''source'' \<and>
   process_row example_rnd ''Sheet1'' 0 (Some [CStr ''#'', CStr ''Key'', CStr ''Source'']) (0, []) = (0, []) \<and>
   process_rows example_rnd ''Sheet1'' 0 [Some [CStr ''#'', CStr ''Key'', CStr ''Source'']] (0, []) = (0, [])"
proof -
  have k: "toLowerCase (keyVal [CStr ''#'', CStr ''Key'', CStr ''Source'']) = ''key''"
    by code_simp
  have v: "toLowerCase (sourceVal [CStr ''#'', CStr ''Key'', CStr ''Source'']) = ''source''"
    by code_simp
  show ?thesis
    using header_row_discarded [of "[]" "[CStr ''#'', CStr ''Key'', CStr ''Source'']"
        example_rnd "''Sheet1''" "(0, [])" "[]"] k v
    by simp
qed



text \<open>
  C6. If reading fails for any file of an import call, the call commits nothing: the
  records are those of before the call, also when files before the failing one were read,
  and the statistics are unchanged; the parser gives an error, not a list of records.
\<close>

theorem failed_import_commits_nothing:
  assumes "\<exists>f\<in>set files. content f = None"
  shows "records (handleFiles rnd files elapsed s) = records s \<and>
         stats (handleFiles rnd files elapsed s) = stats s \<and>
         (\<exists>n. parseExcelFiles rnd (draws s) files = (n, Inl ParseError))"
proof -
  obtain n where "parseExcelFiles rnd (draws s) files = (n, Inl ParseError)"
    using parse_files_fail [OF assms] unfolding parseExcelFiles_def by blast
  then show ?thesis by (simp add: handleFiles_def)
qed

theorem failed_import_commits_nothing_witness:
  "content unreadable_file = None \<and>
   records (handleFiles example_rnd [example_file, unreadable_file] 3 example_state) =
     records example_state \<and>
   length (records example_state) = 2"
proof -
  have c: "content unreadable_file = None" by (simp add: unreadable_file_def)
  then have "\<exists>f\<in>set [example_file, unreadable_file]. content f = None" by simp
  from failed_import_commits_nothing [OF this, of example_rnd 3 example_state] c
  show ?thesis by (simp add: example_state_records)
qed

section \<open>The claims about the search\<close>

text \<open>
  C3. With a query that is empty after trimming, the search gives no exact matches and, as
  fuzzy matches, all the records in the order in which they were accumulated.
\<close>

theorem empty_query_browses_all:
  "trim q = [] \<Longrightarrow>
   exactMatches (search_effect fuse_search q s) = [] \<and>
   fuzzyMatches (search_effect fuse_search q s) = records s"
  by (simp add: search_effect_def)

theorem empty_query_browses_all_witness:
  "trim ''  '' = [] \<and>
   exactMatches (search_effect example_fuse ''  '' example_state) = [] \<and>
   fuzzyMatches (search_effect example_fuse ''  '' example_state) = records example_state \<and>
   length (records example_state) = 2"
proof -
  have t: "trim ''  '' = []" by code_simp
  from empty_query_browses_all [OF t, of example_fuse example_state] t
  show ?thesis by (simp add: example_state_records)
qed

text \<open>
  C1. For a query that is not empty after trimming, the exact matches of the search are
  the records, in the order of the record set, whose key or source text equals the trimmed
  query without regard to case, or contains it as a whole word: with the start of the text
  or a separator (white space, dot, underscore, dash) before it and a separator or the end
  of the text after it, without regard to case. The states are those of a session; the
  pattern of the search always compiles, and every character of the query stands for
  itself in it.
\<close>

theorem exact_matches_are_the_filter:
  assumes "trim q \<noteq> []"
  shows "exactMatches (search_effect fuse_search q (run rnd fuse_search evs)) =
         filter (exact_spec (trim q)) (records (run rnd fuse_search evs))"
proof (cases "records (run rnd fuse_search evs) = []")
  case True
  then have "exactMatches (run rnd fuse_search evs) = []"
    using results_inv_run [of rnd fuse_search evs] by (simp add: results_inv_def)
  then show ?thesis using True assms by (simp add: search_effect_no_index)
next
  case False
  with assms show ?thesis by (rule search_effect_nonempty(1))
qed

theorem exact_matches_are_the_filter_witness:
  "trim '' hello world '' \<noteq> [] \<and>
   exactMatches (search_effect example_fuse '' hello world '' example_state) = [greeting_record] \<and>
   trim ''WORLD'' \<noteq> [] \<and>
   exactMatches (search_effect example_fuse ''WORLD'' example_state) = [greeting_record] \<and>
   trim ''Hell'' \<noteq> [] \<and>
   exactMatches (search_effect example_fuse ''Hell'' example_state) = []"
proof -
  have t: "trim '' hello world '' \<noteq> []" "trim ''WORLD'' \<noteq> []" "trim ''Hell'' \<noteq> []"
    by code_simp+
  have f: "filter (exact_spec (trim '' hello world '')) (records example_state) = [greeting_record]"
    "filter (exact_spec (trim ''WORLD'')) (records example_state) = [greeting_record]"
    "filter (exact_spec (trim ''Hell'')) (records example_state) = []"
    by code_simp+
  show ?thesis
    using exact_matches_are_the_filter [OF t(1), of example_fuse example_rnd "[Drop [example_file] 7]"]
      exact_matches_are_the_filter [OF t(2), of example_fuse example_rnd "[Drop [example_file] 7]"]
      exact_matches_are_the_filter [OF t(3), of example_fuse example_rnd "[Drop [example_file] 7]"]
      t f
    unfolding example_state_def [symmetric] by simp
qed

text \<open>
  C2. After the search effect has run in a state of a session, with any query, no id of an
  exact match is the id of a fuzzy match.
\<close>

theorem exact_and_fuzzy_disjoint:
  "set (map id_field (exactMatches (search_effect fuse_search q (run rnd fuse_search evs)))) \<inter>
   set (map id_field (fuzzyMatches (search_effect fuse_search q (run rnd fuse_search evs)))) = {}"
  using results_inv_search [OF results_inv_run, of fuse_search q rnd fuse_search evs]
  by (simp add: results_inv_def ids_def)

theorem exact_and_fuzzy_disjoint_witness:
  "set (map id_field (exactMatches (search_effect example_fuse ''greeting'' example_state))) \<inter>
   set (map id_field (fuzzyMatches (search_effect example_fuse ''greeting'' example_state))) = {} \<and>
   example_fuse (records example_state) ''greeting'' = [greeting_record, farewell_record] \<and>
   exactMatches (search_effect example_fuse ''greeting'' example_state) = [greeting_record] \<and>
   fuzzyMatches (search_effect example_fuse ''greeting'' example_state) = [farewell_record]"
proof -
  have 1: "set (map id_field (exactMatches (search_effect example_fuse ''greeting'' example_state))) \<inter>
      set (map id_field (fuzzyMatches (search_effect example_fuse ''greeting'' example_state))) = {}"
    unfolding example_state_def by (rule exact_and_fuzzy_disjoint)
  have 2: "example_fuse (records example_state) ''greeting'' = [greeting_record, farewell_record]"
    by code_simp
  have 3: "exactMatches (search_effect example_fuse ''greeting'' example_state) = [greeting_record]"
    by code_simp
  have 4: "fuzzyMatches (search_effect example_fuse ''greeting'' example_state) = [farewell_record]"
    by code_simp
  show ?thesis using 1 2 3 4 by blast
qed

text \<open>
  C8. In a state of a session with no records, the search effect leaves the exact matches
  and the fuzzy matches empty, whatever the query.
\<close>

theorem no_records_no_results:
  "records (run rnd fuse_search evs) = [] \<Longrightarrow>
   exactMatches (search_effect fuse_search q (run rnd fuse_search evs)) = [] \<and>
   fuzzyMatches (search_effect fuse_search q (run rnd fuse_search evs)) = []"
  using results_inv_search [OF results_inv_run, of fuse_search q rnd fuse_search evs]
  by (simp add: results_inv_def search_effect_records)

theorem no_records_no_results_witness:
  "records (run example_rnd example_fuse [Drop [example_file] 7, Search ''greeting'', Reset]) = [] \<and>
   exactMatches (search_effect example_fuse ''greeting''
     (run example_rnd example_fuse [Drop [example_file] 7, Search ''greeting'', Reset])) = [] \<and>
   fuzzyMatches (search_effect example_fuse ''greeting''
     (run example_rnd example_fuse [Drop [example_file] 7, Search ''greeting'', Reset])) = []"
proof -
  have r: "records (run example_rnd example_fuse [Drop [example_file] 7, Search ''greeting'', Reset]) = []"
    by code_simp
  from no_records_no_results [OF r, of "''greeting''"] r show ?thesis by blast
qed


section \<open>The claims about the record set\<close>




text \<open>
  C10. The key and the source text of every record that the parser returns, and of every
  record of a session, are their own trim: they have no white space at either end.
\<close>

theorem stored_fields_are_trimmed:
  "(parseExcelFiles rnd n files = (n', Inr recs) \<longrightarrow>
      (\<forall>r\<in>set recs. trim (key r) = key r \<and> trim (sourceText r) = sourceText r)) \<and>
   (\<forall>r\<in>set (records (run rnd fuse_search evs)).
      trim (key r) = key r \<and> trim (sourceText r) = sourceText r)"
proof -
  obtain ks where ks: "from_draws rnd ks (records (run rnd fuse_search evs))"
    using session_inv_run [of rnd fuse_search evs] unfolding session_inv_def by blast
  show ?thesis using from_draws_trimmed [OF ks] from_draws_trimmed [OF parseExcelFiles_ok(2)]
    by blast
qed

theorem stored_fields_are_trimmed_witness:
  "parseExcelFiles example_rnd 0 [padded_file] =
     (1, Inr [\<lparr> id_field = ''Sheet1-0-0'', taskName = ''Sheet1'', originalId = ''1'',
                key = ''greeting'', sourceText = ''Hello World'', notes_field = [] \<rparr>]) \<and>
   trim ''greeting'' = ''greeting'' \<and> trim ''Hello World'' = ''Hello World'' \<and>
   list_all (\<lambda>r. trim (key r) = key r \<and> trim (sourceText r) = sourceText r)
     (records (run example_rnd example_fuse [Pick (Some [padded_file]) 2]))"
proof -
  let ?r = "\<lparr> id_field = ''Sheet1-0-0'', taskName = ''Sheet1'', originalId = ''1'',
                key = ''greeting'', sourceText = ''Hello World'', notes_field = [] \<rparr>"
  have p: "parseExcelFiles example_rnd 0 [padded_file] = (1, Inr [?r])"
    by code_simp
  note c = stored_fields_are_trimmed [of example_rnd 0 "[padded_file]" 1 "[?r]" example_fuse "[Pick (Some [padded_file]) 2]"]
  from c p have "trim (key ?r) = key ?r \<and> trim (sourceText ?r) = sourceText ?r" by simp
  then have "trim ''greeting'' = ''greeting'' \<and> trim ''Hello World'' = ''Hello World''" by simp
  moreover from c have "list_all (\<lambda>r. trim (key r) = key r \<and> trim (sourceText r) = sourceText r)
     (records (run example_rnd example_fuse [Pick (Some [padded_file]) 2]))"
    unfolding list_all_iff by blast
  ultimately show ?thesis using p by blast
qed


section \<open>The two paths into the import\<close>

text \<open>
  C9. The handler of a drop keeps the files whose names end in \<^verbatim>\<open>.xlsx\<close>,
  \<^verbatim>\<open>.xls\<close> or \<^verbatim>\<open>.csv\<close>, and calls the import only if some are left; the handler
  of the file input passes on every file selected. For a file named
  \<^verbatim>\<open>REPORT.XLSX\<close> the drop does not call the import and the picker calls it with
  that file; for a workbook together with a text file the drop passes on the workbook
  and the picker both.
\<close>

theorem drop_and_picker_differ:
  "handleDrop False [upper_case_file] = None \<and>
   handleFileInput (Some [upper_case_file]) = Some [upper_case_file] \<and>
   handleDrop False [example_file, text_file] = Some [example_file] \<and>
   handleFileInput (Some [example_file, text_file]) = Some [example_file, text_file]"
  by code_simp

end
